theory Spec2Isabelle
  imports Main "HOL-Library.Sublist"
begin

section \<open>Text and the regular expressions of the folder-name cleanup\<close>

text \<open>
  The script \<^verbatim>\<open>inst/python/get_dewey_urls.py\<close> works on Python \<^verbatim>\<open>str\<close> values. A
  \<^typ>\<open>string\<close> here is the list of the code points of such a value, for code points
  below 256 (a \<^typ>\<open>char\<close> has eight bits). Among these the only decimal digits, which is
  what \<^verbatim>\<open>\d\<close> accepts, are \<^verbatim>\<open>0\<close> to \<^verbatim>\<open>9\<close>.
\<close>

definition newline :: char where
  "newline = CHR 0x0A"

definition is_digit :: "char \<Rightarrow> bool" where
  "is_digit c \<longleftrightarrow> c \<in> set ''0123456789''"

text \<open>
  The two patterns of the script, \<^verbatim>\<open>[-_]\d.*$\<close> and \<^verbatim>\<open>-data$\<close>, are sequences of items:
  one character of a class, a greedy repetition of a class, or the anchor \<^verbatim>\<open>$\<close>.
\<close>

datatype atom = Lit char | OneOf "char list" | Digit | Dot

datatype item = One atom | Many atom | Dollar

type_synonym pattern = "item list"

text \<open>
  Without the \<^verbatim>\<open>DOTALL\<close> flag \<^verbatim>\<open>.\<close> accepts every character but the newline; without
  \<^verbatim>\<open>MULTILINE\<close> the anchor \<^verbatim>\<open>$\<close> holds at the end of the text and just before a
  newline that is the last character of the text.
\<close>

fun accepts :: "atom \<Rightarrow> char \<Rightarrow> bool" where
  "accepts (Lit a) c \<longleftrightarrow> c = a"
| "accepts (OneOf cs) c \<longleftrightarrow> c \<in> set cs"
| "accepts Digit c \<longleftrightarrow> is_digit c"
| "accepts Dot c \<longleftrightarrow> c \<noteq> newline"

definition at_end :: "string \<Rightarrow> bool" where
  "at_end s \<longleftrightarrow> s = [] \<or> s = [newline]"

text \<open>
  \<open>rematch p s\<close> is the backtracking match of the pattern \<open>p\<close> at the start of the text
  \<open>s\<close>: the text left after the match that the matcher finds first, or \<open>None\<close>. A greedy
  repetition takes one more character first and gives it back when the rest of the
  pattern fails.
\<close>

fun rematch :: "pattern \<Rightarrow> string \<Rightarrow> string option" where
  "rematch [] s = Some s"
| "rematch (One a # p) [] = None"
| "rematch (One a # p) (c # cs) = (if accepts a c then rematch p cs else None)"
| "rematch (Dollar # p) s = (if at_end s then rematch p s else None)"
| "rematch (Many a # p) [] = rematch p []"
| "rematch (Many a # p) (c # cs) =
     (if accepts a c
      then (case rematch (Many a # p) cs of
              Some r \<Rightarrow> Some r
            | None \<Rightarrow> rematch p (c # cs))
      else rematch p (c # cs))"

text \<open>
  \<^verbatim>\<open>re.sub(pattern, repl, s)\<close> for a replacement text without group references: the text
  is scanned from the left, every match is replaced and the scan goes on behind it; a
  character at which the pattern does not match is copied. An empty match is replaced
  and the scan moves on by one character.
\<close>

function re_sub :: "pattern \<Rightarrow> string \<Rightarrow> string \<Rightarrow> string" where
  "re_sub p repl s =
     (case rematch p s of
        None \<Rightarrow> (case s of [] \<Rightarrow> [] | c # cs \<Rightarrow> c # re_sub p repl cs)
      | Some r \<Rightarrow>
          if length r < length s then repl @ re_sub p repl r
          else (case s of [] \<Rightarrow> repl | c # cs \<Rightarrow> repl @ c # re_sub p repl cs))"
  by pat_completeness auto
termination
  by (relation "measure (\<lambda>(p, repl, s). length s)") auto

declare re_sub.simps [simp del]

text \<open>The pattern \<^verbatim>\<open>[-_]\d.*$\<close>.\<close>

definition shard_suffix :: pattern where
  "shard_suffix = [One (OneOf ''-_''), One Digit, Many Dot, Dollar]"

text \<open>The pattern \<^verbatim>\<open>-data$\<close>.\<close>

definition data_suffix :: pattern where
  "data_suffix =
     [One (Lit CHR ''-''), One (Lit CHR ''d''), One (Lit CHR ''a''), One (Lit CHR ''t''),
      One (Lit CHR ''a''), Dollar]"

text \<open>
  \<^verbatim>\<open>parent_folder = re.sub(r"[-_]\d.*$", "", file_name)\<close> and then
  \<^verbatim>\<open>parent_folder = re.sub(r"-data$", "", parent_folder)\<close>.
\<close>

definition parent_folder :: "string \<Rightarrow> string" where
  "parent_folder file_name = re_sub data_suffix [] (re_sub shard_suffix [] file_name)"

section \<open>Values, records and errors\<close>

text \<open>
  The values that the listing call delivers and that \<^verbatim>\<open>json.dumps\<close> writes: \<^verbatim>\<open>None\<close>,
  integers of any size, strings, lists, and dictionaries with string keys in insertion
  order. Floating-point numbers and booleans are not part of the model.
\<close>

datatype pyval =
    PNone
  | PInt int
  | PStr string
  | PList "pyval list"
  | PDict "(string \<times> pyval) list"

text \<open>
  An uncaught exception ends the script. \<open>LibraryError\<close> stands for whatever the two
  calls into \<^verbatim>\<open>deweypy\<close> raise.
\<close>

datatype error = IndexError | KeyError | TypeError | LibraryError string

definition and_then :: "error + 'a \<Rightarrow> ('a \<Rightarrow> error + 'b) \<Rightarrow> error + 'b" where
  "and_then m f = (case m of Inl e \<Rightarrow> Inl e | Inr x \<Rightarrow> f x)"

text \<open>A file-metadata record is a dictionary; \<^verbatim>\<open>f["link"]\<close> raises \<^verbatim>\<open>KeyError\<close> on a missing key.\<close>

type_synonym file_record = "string \<rightharpoonup> pyval"

definition getitem :: "file_record \<Rightarrow> string \<Rightarrow> error + pyval" where
  "getitem f k = (case f k of None \<Rightarrow> Inl KeyError | Some v \<Rightarrow> Inr v)"

text \<open>\<^verbatim>\<open>xs[i]\<close> for an index that is not negative: \<^verbatim>\<open>IndexError\<close> when out of range.\<close>

definition item_at :: "'a list \<Rightarrow> nat \<Rightarrow> error + 'a" where
  "item_at xs i = (if i < length xs then Inr (xs ! i) else Inl IndexError)"

section \<open>The JSON encoder\<close>

definition dquote :: char where
  "dquote = CHR 0x22"

definition backslash :: char where
  "backslash = CHR 0x5C"

definition hex_digit :: "nat \<Rightarrow> char" where
  "hex_digit n = ''0123456789abcdef'' ! n"

text \<open>
  \<^verbatim>\<open>json.dumps\<close> is called with its defaults, so \<^verbatim>\<open>ensure_ascii\<close> holds: the backslash,
  the double quote and every character outside the range from the space to \<^verbatim>\<open>~\<close> are
  escaped, with the short escapes of the encoder's table where it has one and as
  \<^verbatim>\<open>\uXXXX\<close> with four lower-case hexadecimal digits otherwise.
\<close>

definition escape_char :: "char \<Rightarrow> string" where
  "escape_char c =
     (if c = backslash then [backslash, backslash]
      else if c = dquote then [backslash, dquote]
      else if c = CHR 0x08 then [backslash, CHR ''b'']
      else if c = CHR 0x0C then [backslash, CHR ''f'']
      else if c = newline then [backslash, CHR ''n'']
      else if c = CHR 0x0D then [backslash, CHR ''r'']
      else if c = CHR 0x09 then [backslash, CHR ''t'']
      else if 0x20 \<le> (of_char c :: nat) \<and> (of_char c :: nat) \<le> 0x7E then [c]
      else [backslash, CHR ''u'', CHR ''0'', CHR ''0'',
            hex_digit (of_char c div 16), hex_digit (of_char c mod 16)])"

definition encode_string :: "string \<Rightarrow> string" where
  "encode_string s = dquote # concat (map escape_char s) @ [dquote]"

text \<open>The decimal digits of a natural number, and \<^verbatim>\<open>int.__repr__\<close>.\<close>

definition digit_char :: "nat \<Rightarrow> char" where
  "digit_char n = ''0123456789'' ! n"

fun dec :: "nat \<Rightarrow> string" where
  "dec n = (if n < 10 then [digit_char n] else dec (n div 10) @ [digit_char (n mod 10)])"

declare dec.simps [simp del]

definition str_int :: "int \<Rightarrow> string" where
  "str_int i = (if i < 0 then CHR ''-'' # dec (nat (- i)) else dec (nat i))"

text \<open>\<^verbatim>\<open>sep.join(parts)\<close>.\<close>

fun join :: "string \<Rightarrow> string list \<Rightarrow> string" where
  "join sep [] = []"
| "join sep [x] = x"
| "join sep (x # y # ys) = x @ sep @ join sep (y # ys)"

text \<open>
  \<^verbatim>\<open>json.dumps(obj)\<close> with the default separators \<^verbatim>\<open>", "\<close> and \<^verbatim>\<open>": "\<close> and no
  indentation.
\<close>

fun dumps :: "pyval \<Rightarrow> string" where
  "dumps PNone = ''null''"
| "dumps (PInt i) = str_int i"
| "dumps (PStr s) = encode_string s"
| "dumps (PList vs) = ''['' @ join '', '' (map dumps vs) @ '']''"
| "dumps (PDict kvs) =
     ''{'' @ join '', '' (map (\<lambda>kv. encode_string (fst kv) @ '': '' @ dumps (snd kv)) kvs) @ ''}''"

section \<open>The script\<close>

text \<open>\<^verbatim>\<open>urls = [f["link"] for f in files]\<close>\<close>

fun urls :: "file_record list \<Rightarrow> error + pyval list" where
  "urls [] = Inr []"
| "urls (f # fs) =
     and_then (getitem f ''link'') (\<lambda>u.
     and_then (urls fs) (\<lambda>us. Inr (u # us)))"

text \<open>
  \<^verbatim>\<open>sum(f["file_size_bytes"] for f in files)\<close>: the running total starts at 0; each step
  looks the field up and adds it, and adding a value that is not a number is a
  \<^verbatim>\<open>TypeError\<close>. Python's integers have no bound.
\<close>

fun sum_sizes :: "int \<Rightarrow> file_record list \<Rightarrow> error + int" where
  "sum_sizes acc [] = Inr acc"
| "sum_sizes acc (f # fs) =
     and_then (getitem f ''file_size_bytes'') (\<lambda>v.
       case v of PInt n \<Rightarrow> sum_sizes (acc + n) fs | _ \<Rightarrow> Inl TypeError)"

text \<open>The two \<^verbatim>\<open>re.sub\<close> calls raise \<^verbatim>\<open>TypeError\<close> on a value that is not a string.\<close>

definition derive_folder :: "pyval \<Rightarrow> error + string" where
  "derive_folder file_name =
     (case file_name of PStr s \<Rightarrow> Inr (parent_folder s) | _ \<Rightarrow> Inl TypeError)"

text \<open>
  Lines 19 to 42 of the script, in the order in which Python evaluates them: the links,
  the first record and its name, the folder name, the extension, and then the entries
  of the dictionary literal from top to bottom.
\<close>

definition summary :: "file_record list \<Rightarrow> error + pyval" where
  "summary files =
     and_then (urls files) (\<lambda>urls.
     and_then (item_at files 0) (\<lambda>first.
     and_then (getitem first ''file_name'') (\<lambda>file_name.
     and_then (derive_folder file_name) (\<lambda>parent_folder.
     and_then (getitem first ''file_extension'') (\<lambda>file_extension.
     and_then (item_at files 0) (\<lambda>first.
     and_then (getitem first ''partition_key'') (\<lambda>partition_key.
     and_then (sum_sizes 0 files) (\<lambda>file_size_bytes.
       Inr (PDict
         [(''urls'', PList urls),
          (''parent_folder'', PStr parent_folder),
          (''file_extension'', file_extension),
          (''partition_key'', partition_key),
          (''file_size_bytes'', PInt file_size_bytes)])))))))))"

text \<open>
  The two functions of \<^verbatim>\<open>deweypy\<close> are parameters: \<open>set_api_key\<close> returns (\<open>None\<close>) or
  raises; \<open>get_dataset_files\<close>, which reads the key that was registered, returns the
  sequence of records or raises. Neither writes to standard output.
\<close>

record external =
  set_api_key :: "string \<Rightarrow> error option"
  get_dataset_files :: "string \<Rightarrow> string \<Rightarrow> error + file_record list"

text \<open>The text that reaches \<^verbatim>\<open>print\<close>, for the argument vector \<^verbatim>\<open>sys.argv\<close>.\<close>

definition script :: "external \<Rightarrow> string list \<Rightarrow> error + string" where
  "script lib argv =
     and_then (item_at argv 1) (\<lambda>api_key.
     and_then (item_at argv 2) (\<lambda>data_id.
     and_then (case set_api_key lib api_key of Some e \<Rightarrow> Inl e | None \<Rightarrow> Inr ()) (\<lambda>_.
     and_then (get_dataset_files lib api_key data_id) (\<lambda>files.
     and_then (summary files) (\<lambda>obj.
       Inr (dumps obj))))))"

text \<open>
  What the process leaves behind: \<^verbatim>\<open>print\<close> writes its argument and a newline; an
  uncaught exception ends the interpreter with status 1 and nothing written to
  standard output.
\<close>

record outcome =
  stdout :: string
  uncaught :: "error option"
  exit_status :: nat

definition main :: "external \<Rightarrow> string list \<Rightarrow> outcome" where
  "main lib argv =
     (case script lib argv of
        Inl e \<Rightarrow> \<lparr>stdout = [], uncaught = Some e, exit_status = 1\<rparr>
      | Inr text \<Rightarrow> \<lparr>stdout = text @ [newline], uncaught = None, exit_status = 0\<rparr>)"

section \<open>The data model of the specification\<close>

text \<open>
  A well-formed file-metadata record has the five fields of the data model with their
  types: \<open>link\<close>, \<open>file_name\<close> and \<open>file_extension\<close> are strings, \<open>partition_key\<close> is a
  string or null, \<open>file_size_bytes\<close> is an integer. A record may have other fields too.
\<close>

fun is_str :: "pyval option \<Rightarrow> bool" where
  "is_str (Some (PStr s)) = True"
| "is_str _ = False"

fun is_int :: "pyval option \<Rightarrow> bool" where
  "is_int (Some (PInt n)) = True"
| "is_int _ = False"

fun is_str_or_none :: "pyval option \<Rightarrow> bool" where
  "is_str_or_none (Some (PStr s)) = True"
| "is_str_or_none (Some PNone) = True"
| "is_str_or_none _ = False"

definition well_formed :: "file_record \<Rightarrow> bool" where
  "well_formed f \<longleftrightarrow>
     is_str (f ''link'') \<and> is_str (f ''file_name'') \<and> is_str (f ''file_extension'') \<and>
     is_str_or_none (f ''partition_key'') \<and> is_int (f ''file_size_bytes'')"

text \<open>
  A record that may lack fields, but whose fields, where present, have the types of the
  data model. Only the types of \<open>file_name\<close> and \<open>file_size_bytes\<close> matter to the script.
\<close>

fun absent_or :: "(pyval option \<Rightarrow> bool) \<Rightarrow> pyval option \<Rightarrow> bool" where
  "absent_or P None = True"
| "absent_or P (Some v) = P (Some v)"

definition typed_where_present :: "file_record \<Rightarrow> bool" where
  "typed_where_present f \<longleftrightarrow>
     absent_or is_str (f ''file_name'') \<and> absent_or is_int (f ''file_size_bytes'')"

text \<open>
  Some field that the script reads is missing: \<open>link\<close> or \<open>file_size_bytes\<close> of any record,
  or \<open>file_name\<close>, \<open>file_extension\<close> or \<open>partition_key\<close> of the first one.
\<close>

definition lacks :: "file_record \<Rightarrow> string list \<Rightarrow> bool" where
  "lacks f ks \<longleftrightarrow> list_ex (\<lambda>k. f k = None) ks"

fun missing_field :: "file_record list \<Rightarrow> bool" where
  "missing_field [] = False"
| "missing_field (f # fs) \<longleftrightarrow>
     lacks f [''file_name'', ''file_extension'', ''partition_key''] \<or>
     list_ex (\<lambda>g. lacks g [''link'', ''file_size_bytes'']) (f # fs)"

section \<open>The folder-name cleanup in the words of the specification\<close>

text \<open>
  Step a: remove a hyphen or underscore followed by a digit, with all the characters
  that remain up to the end of the string.
\<close>

fun strip_shard :: "string \<Rightarrow> string" where
  "strip_shard (c # d # cs) =
     (if c \<in> set ''-_'' \<and> is_digit d then [] else c # strip_shard (d # cs))"
| "strip_shard cs = cs"

text \<open>Step b: remove a trailing literal \<^verbatim>\<open>-data\<close> if present.\<close>

definition strip_data :: "string \<Rightarrow> string" where
  "strip_data s = (if suffix ''-data'' s then take (length s - 5) s else s)"

definition spec_parent_folder :: "string \<Rightarrow> string" where
  "spec_parent_folder file_name = strip_data (strip_shard file_name)"

section \<open>JSON texts\<close>

text \<open>
  The grammar of RFC 8259, as a relation between a text and the value it denotes. The
  productions for \<^verbatim>\<open>true\<close>, \<^verbatim>\<open>false\<close>, fractions and exponents have no counterpart among
  the values of the model and are left out; in a string, \<^verbatim>\<open>\uXXXX\<close> is read for code
  points below 256.
\<close>

definition is_ws :: "string \<Rightarrow> bool" where
  "is_ws w \<longleftrightarrow> list_all (\<lambda>c. c \<in> set [CHR 0x20, CHR 0x09, CHR 0x0A, CHR 0x0D]) w"

definition unescaped :: "char \<Rightarrow> bool" where
  "unescaped c \<longleftrightarrow> 0x20 \<le> (of_char c :: nat) \<and> c \<noteq> dquote \<and> c \<noteq> backslash"

definition short_escapes :: "(char \<times> char) list" where
  "short_escapes =
     [(dquote, dquote), (backslash, backslash), (CHR ''/'', CHR ''/''),
      (CHR ''b'', CHR 0x08), (CHR ''f'', CHR 0x0C), (CHR ''n'', CHR 0x0A),
      (CHR ''r'', CHR 0x0D), (CHR ''t'', CHR 0x09)]"

definition hex_value :: "char \<Rightarrow> nat option" where
  "hex_value c =
     map_of (zip ''0123456789abcdef'' [0 ..< 16] @ zip ''ABCDEF'' [10 ..< 16]) c"

inductive json_chars :: "string \<Rightarrow> string \<Rightarrow> bool" where
  chars_end: "json_chars [] []"
| chars_plain: "unescaped c \<Longrightarrow> json_chars t s \<Longrightarrow> json_chars (c # t) (c # s)"
| chars_short:
    "(e, c) \<in> set short_escapes \<Longrightarrow> json_chars t s \<Longrightarrow>
     json_chars (backslash # e # t) (c # s)"
| chars_unicode:
    "hex_value h3 = Some n3 \<Longrightarrow> hex_value h2 = Some n2 \<Longrightarrow>
     hex_value h1 = Some n1 \<Longrightarrow> hex_value h0 = Some n0 \<Longrightarrow>
     4096 * n3 + 256 * n2 + 16 * n1 + n0 < 256 \<Longrightarrow> json_chars t s \<Longrightarrow>
     json_chars (backslash # CHR ''u'' # h3 # h2 # h1 # h0 # t)
       (char_of (4096 * n3 + 256 * n2 + 16 * n1 + n0) # s)"

definition digits_value :: "string \<Rightarrow> nat" where
  "digits_value ds = foldl (\<lambda>a c. 10 * a + (of_char c - 48)) 0 ds"

definition json_digits :: "string \<Rightarrow> bool" where
  "json_digits ds \<longleftrightarrow>
     ds \<noteq> [] \<and> list_all is_digit ds \<and> (length ds = 1 \<or> hd ds \<noteq> CHR ''0'')"

definition json_int :: "string \<Rightarrow> int \<Rightarrow> bool" where
  "json_int t n \<longleftrightarrow>
     (case t of
        [] \<Rightarrow> False
      | c # ds \<Rightarrow>
          if c = CHR ''-'' then json_digits ds \<and> n = - int (digits_value ds)
          else json_digits t \<and> n = int (digits_value t))"

inductive json_value :: "string \<Rightarrow> pyval \<Rightarrow> bool"
  and json_elements :: "string \<Rightarrow> pyval list \<Rightarrow> bool"
  and json_members :: "string \<Rightarrow> (string \<times> pyval) list \<Rightarrow> bool"
where
  value_null: "json_value ''null'' PNone"
| value_number: "json_int t n \<Longrightarrow> json_value t (PInt n)"
| value_string: "json_chars b s \<Longrightarrow> json_value (dquote # b @ [dquote]) (PStr s)"
| value_empty_array: "is_ws w \<Longrightarrow> json_value (''['' @ w @ '']'') (PList [])"
| value_array: "json_elements t vs \<Longrightarrow> json_value (''['' @ t @ '']'') (PList vs)"
| value_empty_object: "is_ws w \<Longrightarrow> json_value (''{'' @ w @ ''}'') (PDict [])"
| value_object: "json_members t kvs \<Longrightarrow> json_value (''{'' @ t @ ''}'') (PDict kvs)"
| elements_last:
    "is_ws w1 \<Longrightarrow> json_value t v \<Longrightarrow> is_ws w2 \<Longrightarrow> json_elements (w1 @ t @ w2) [v]"
| elements_more:
    "is_ws w1 \<Longrightarrow> json_value t v \<Longrightarrow> is_ws w2 \<Longrightarrow> json_elements r vs \<Longrightarrow>
     json_elements (w1 @ t @ w2 @ '','' @ r) (v # vs)"
| members_last:
    "is_ws w1 \<Longrightarrow> json_chars b k \<Longrightarrow> is_ws w2 \<Longrightarrow> is_ws w3 \<Longrightarrow> json_value t v \<Longrightarrow>
     is_ws w4 \<Longrightarrow>
     json_members (w1 @ dquote # b @ [dquote] @ w2 @ '':'' @ w3 @ t @ w4) [(k, v)]"
| members_more:
    "is_ws w1 \<Longrightarrow> json_chars b k \<Longrightarrow> is_ws w2 \<Longrightarrow> is_ws w3 \<Longrightarrow> json_value t v \<Longrightarrow>
     is_ws w4 \<Longrightarrow> json_members r kvs \<Longrightarrow>
     json_members (w1 @ dquote # b @ [dquote] @ w2 @ '':'' @ w3 @ t @ w4 @ '','' @ r)
       ((k, v) # kvs)"


section \<open>Example inputs\<close>

definition example_record :: file_record where
  "example_record =
     [''link'' \<mapsto> PStr ''https://example.org/sales-data_1.csv'',
      ''file_name'' \<mapsto> PStr ''sales-data_1.csv'',
      ''file_extension'' \<mapsto> PStr ''.csv'',
      ''partition_key'' \<mapsto> PNone,
      ''file_size_bytes'' \<mapsto> PInt 5000000000]"

definition example_second :: file_record where
  "example_second =
     [''link'' \<mapsto> PStr ''https://example.org/sales-data_2.csv'',
      ''file_name'' \<mapsto> PStr ''sales-data_2.csv'',
      ''file_extension'' \<mapsto> PStr ''.csv'',
      ''partition_key'' \<mapsto> PStr ''year'',
      ''file_size_bytes'' \<mapsto> PInt 7000000000]"

definition example_lib :: "file_record list \<Rightarrow> external" where
  "example_lib files =
     \<lparr>set_api_key = (\<lambda>key. None), get_dataset_files = (\<lambda>key data_id. Inr files)\<rparr>"

definition example_argv :: "string list" where
  "example_argv = [''get_dewey_urls.py'', ''secret'', ''dataset-1'']"

definition example_large :: file_record where
  "example_large = example_record(''file_size_bytes'' \<mapsto> PInt 9223372036854775807)"

definition example_no_size :: file_record where
  "example_no_size = example_second(''file_size_bytes'' := None)"

definition example_no_key :: file_record where
  "example_no_key = example_record(''partition_key'' := None)"

text \<open>A record without \<open>file_extension\<close> whose \<open>file_name\<close> is a number.\<close>

definition example_ill_typed :: file_record where
  "example_ill_typed =
     [''link'' \<mapsto> PStr ''https://example.org/sales-data_1.csv'',
      ''file_name'' \<mapsto> PInt 5,
      ''partition_key'' \<mapsto> PNone,
      ''file_size_bytes'' \<mapsto> PInt 5000000000]"

text \<open>A file name that ends in a newline.\<close>

definition name_with_newline :: string where
  "name_with_newline = ''a_1'' @ [newline]"

text \<open>The line that the script prints for the listing of the first example record alone.\<close>

definition quoted :: "string \<Rightarrow> string" where
  "quoted s = dquote # s @ [dquote]"

definition example_output :: string where
  "example_output =
     ''{'' @ quoted ''urls'' @ '': ['' @ quoted ''https://example.org/sales-data_1.csv'' @ ''], '' @
     quoted ''parent_folder'' @ '': '' @ quoted ''sales'' @ '', '' @
     quoted ''file_extension'' @ '': '' @ quoted ''.csv'' @ '', '' @
     quoted ''partition_key'' @ '': null, '' @
     quoted ''file_size_bytes'' @ '': 5000000000}''"

section \<open>The script: helper facts\<close>

lemma and_then_Inl [simp]: "and_then (Inl e) f = Inl e"
  by (simp add: and_then_def)

lemma and_then_Inr [simp]: "and_then (Inr x) f = f x"
  by (simp add: and_then_def)

lemma and_then_eq_Inr: "and_then m f = Inr y \<longleftrightarrow> (\<exists>x. m = Inr x \<and> f x = Inr y)"
  by (cases m) simp_all

lemma and_then_eq_Inl:
  "and_then m f = Inl e \<longleftrightarrow> m = Inl e \<or> (\<exists>x. m = Inr x \<and> f x = Inl e)"
  by (cases m) simp_all

lemma getitem_eq_Inr [simp]: "getitem f k = Inr v \<longleftrightarrow> f k = Some v"
  by (simp add: getitem_def split: option.splits)

lemma getitem_eq_Inl [simp]: "getitem f k = Inl e \<longleftrightarrow> f k = None \<and> e = KeyError"
  by (auto simp: getitem_def split: option.splits)

lemma is_strE: "is_str x \<Longrightarrow> \<exists>s. x = Some (PStr s)"
  by (cases x rule: is_str.cases) simp_all

lemma is_intE: "is_int x \<Longrightarrow> \<exists>n. x = Some (PInt n)"
  by (cases x rule: is_int.cases) simp_all

lemma is_str_or_noneE: "is_str_or_none x \<Longrightarrow> x = Some PNone \<or> (\<exists>s. x = Some (PStr s))"
  by (cases x rule: is_str_or_none.cases) simp_all

lemma urls_eq_Inr: "urls files = Inr us \<longleftrightarrow> map (\<lambda>f. f ''link'') files = map Some us"
proof (induction files arbitrary: us)
  case Nil
  show ?case by auto
next
  case (Cons f fs)
  show ?case
    by (cases us) (auto simp: and_then_eq_Inr Cons.IH)
qed

lemma urls_eq_Inl: "urls files = Inl e \<Longrightarrow> e = KeyError"
  by (induction files) (auto simp: and_then_eq_Inl)

lemma sum_sizes_Cons_Inr:
  "sum_sizes acc (f # fs) = Inr t \<longleftrightarrow>
   (\<exists>n. f ''file_size_bytes'' = Some (PInt n) \<and> sum_sizes (acc + n) fs = Inr t)"
proof (cases "f ''file_size_bytes''")
  case None
  then show ?thesis by (simp add: getitem_def)
next
  case (Some v)
  then show ?thesis by (cases v) (simp_all add: getitem_def)
qed

lemma sum_sizes_eq_Inr:
  "sum_sizes acc files = Inr t \<longleftrightarrow>
   (\<exists>ns. map (\<lambda>f. f ''file_size_bytes'') files = map (\<lambda>n. Some (PInt n)) ns \<and>
         t = acc + sum_list ns)"
proof (induction files arbitrary: acc)
  case Nil
  show ?case by auto
next
  case (Cons f fs)
  show ?case
  proof
    assume "sum_sizes acc (f # fs) = Inr t"
    then obtain n where n: "f ''file_size_bytes'' = Some (PInt n)"
      and "sum_sizes (acc + n) fs = Inr t"
      unfolding sum_sizes_Cons_Inr by blast
    then obtain ns where "map (\<lambda>f. f ''file_size_bytes'') fs = map (\<lambda>n. Some (PInt n)) ns"
      and "t = acc + n + sum_list ns"
      using Cons.IH by blast
    with n have "map (\<lambda>f. f ''file_size_bytes'') (f # fs) = map (\<lambda>n. Some (PInt n)) (n # ns)
      \<and> t = acc + sum_list (n # ns)"
      by simp
    then show "\<exists>ns. map (\<lambda>f. f ''file_size_bytes'') (f # fs) = map (\<lambda>n. Some (PInt n)) ns \<and>
      t = acc + sum_list ns"
      by blast
  next
    assume "\<exists>ns. map (\<lambda>f. f ''file_size_bytes'') (f # fs) = map (\<lambda>n. Some (PInt n)) ns \<and>
      t = acc + sum_list ns"
    then obtain ns where ns: "map (\<lambda>f. f ''file_size_bytes'') (f # fs) = map (\<lambda>n. Some (PInt n)) ns"
      and t: "t = acc + sum_list ns"
      by blast
    from ns obtain n ns' where [simp]: "ns = n # ns'"
      by (cases ns) auto
    from ns have n: "f ''file_size_bytes'' = Some (PInt n)"
      and "map (\<lambda>f. f ''file_size_bytes'') fs = map (\<lambda>n. Some (PInt n)) ns'"
      by simp_all
    with t have "sum_sizes (acc + n) fs = Inr t"
      using Cons.IH [of "acc + n"] by auto
    with n show "sum_sizes acc (f # fs) = Inr t"
      unfolding sum_sizes_Cons_Inr by blast
  qed
qed

lemma derive_folder_eq_Inr:
  "derive_folder v = Inr p \<longleftrightarrow> (\<exists>s. v = PStr s \<and> p = parent_folder s)"
  by (cases v) (auto simp: derive_folder_def)

lemma derive_folder_eq_Inl:
  "derive_folder v = Inl e \<longleftrightarrow> (\<forall>s. v \<noteq> PStr s) \<and> e = TypeError"
  by (cases v) (auto simp: derive_folder_def)

lemma sum_sizes_eq_Inl:
  "sum_sizes acc files = Inl e \<Longrightarrow> list_all typed_where_present files \<Longrightarrow> e = KeyError"
proof (induction files arbitrary: acc)
  case Nil
  then show ?case by simp
next
  case (Cons f fs)
  show ?case
  proof (cases "f ''file_size_bytes''")
    case None
    with Cons.prems show ?thesis
      by (auto simp: and_then_eq_Inl)
  next
    case (Some v)
    with Cons.prems obtain n where "v = PInt n"
      using is_intE [of "Some v"] by (auto simp: typed_where_present_def)
    with Some Cons.prems Cons.IH show ?thesis
      by (auto simp: and_then_eq_Inl)
  qed
qed

text \<open>When the script gets as far as \<^verbatim>\<open>json.dumps\<close>, this is the dictionary it has built.\<close>

lemma summary_eq_Inr:
  "summary (f # fs) = Inr obj \<longleftrightarrow>
   (\<exists>us name ext key t.
      urls (f # fs) = Inr us \<and> f ''file_name'' = Some (PStr name) \<and>
      f ''file_extension'' = Some ext \<and> f ''partition_key'' = Some key \<and>
      sum_sizes 0 (f # fs) = Inr t \<and>
      obj = PDict [(''urls'', PList us), (''parent_folder'', PStr (parent_folder name)),
                   (''file_extension'', ext), (''partition_key'', key),
                   (''file_size_bytes'', PInt t)])"
  unfolding summary_def and_then_eq_Inr
  by (auto simp: item_at_def derive_folder_eq_Inr simp del: urls.simps sum_sizes.simps)

lemma summary_Nil: "summary [] = Inl IndexError"
  by (simp add: summary_def item_at_def)

lemma summary_eq_Inl:
  assumes "summary (f # fs) = Inl e" and "list_all typed_where_present (f # fs)"
  shows "e = KeyError"
proof -
  have name: "f ''file_name'' = Some v \<Longrightarrow> \<exists>s. v = PStr s" for v
    using assms(2) is_strE [of "Some v"] by (auto simp: typed_where_present_def)
  from assms(1) show ?thesis
    unfolding summary_def and_then_eq_Inl
    using urls_eq_Inl [of "f # fs" e] sum_sizes_eq_Inl [OF _ assms(2), of 0 e]
    by (auto simp: item_at_def derive_folder_eq_Inl simp del: urls.simps sum_sizes.simps
        dest: name)
qed

lemma main_prints:
  assumes "argv = [prog, api_key, data_id]"
    and "set_api_key lib api_key = None"
    and "get_dataset_files lib api_key data_id = Inr files"
    and "summary files = Inr obj"
  shows "main lib argv = \<lparr>stdout = dumps obj @ [newline], uncaught = None, exit_status = 0\<rparr>"
  using assms by (simp add: main_def script_def item_at_def)

lemma main_raises:
  assumes "argv = [prog, api_key, data_id]"
    and "set_api_key lib api_key = None"
    and "get_dataset_files lib api_key data_id = Inr files"
    and "summary files = Inl e"
  shows "main lib argv = \<lparr>stdout = [], uncaught = Some e, exit_status = 1\<rparr>"
  using assms by (simp add: main_def script_def item_at_def)

text \<open>A listing of well-formed records, the first of them \<open>f\<close>, gets through.\<close>

lemma summary_well_formed:
  assumes "list_all well_formed (f # fs)"
  shows "\<exists>us ns name ext key.
     map (\<lambda>g. g ''link'') (f # fs) = map Some us \<and>
     list_all (\<lambda>u. is_str (Some u)) us \<and>
     map (\<lambda>g. g ''file_size_bytes'') (f # fs) = map (\<lambda>n. Some (PInt n)) ns \<and>
     f ''file_name'' = Some (PStr name) \<and>
     f ''file_extension'' = Some (PStr ext) \<and>
     f ''partition_key'' = Some key \<and> is_str_or_none (Some key) \<and>
     summary (f # fs) =
       Inr (PDict [(''urls'', PList us), (''parent_folder'', PStr (parent_folder name)),
                   (''file_extension'', PStr ext), (''partition_key'', key),
                   (''file_size_bytes'', PInt (sum_list ns))])"
proof -
  have "\<exists>us. map (\<lambda>g. g ''link'') files = map Some us \<and> list_all (\<lambda>u. is_str (Some u)) us"
    if "list_all well_formed files" for files
    using that
  proof (induction files)
    case Nil
    then show ?case by simp
  next
    case (Cons g gs)
    then obtain us where "map (\<lambda>g. g ''link'') gs = map Some us"
      and "list_all (\<lambda>u. is_str (Some u)) us"
      by auto
    moreover from Cons.prems obtain u where "g ''link'' = Some (PStr u)"
      using is_strE by (auto simp: well_formed_def)
    ultimately have "map (\<lambda>g. g ''link'') (g # gs) = map Some (PStr u # us) \<and>
      list_all (\<lambda>u. is_str (Some u)) (PStr u # us)"
      by simp
    then show ?case by blast
  qed
  then obtain us where us: "map (\<lambda>g. g ''link'') (f # fs) = map Some us"
    and strs: "list_all (\<lambda>u. is_str (Some u)) us"
    using assms by blast
  have "\<exists>ns. map (\<lambda>g. g ''file_size_bytes'') files = map (\<lambda>n. Some (PInt n)) ns"
    if "list_all well_formed files" for files
    using that
  proof (induction files)
    case Nil
    then show ?case by simp
  next
    case (Cons g gs)
    then obtain ns where "map (\<lambda>g. g ''file_size_bytes'') gs = map (\<lambda>n. Some (PInt n)) ns"
      by auto
    moreover from Cons.prems obtain n where "g ''file_size_bytes'' = Some (PInt n)"
      using is_intE by (auto simp: well_formed_def)
    ultimately have
      "map (\<lambda>g. g ''file_size_bytes'') (g # gs) = map (\<lambda>n. Some (PInt n)) (n # ns)"
      by simp
    then show ?case by blast
  qed
  then obtain ns where
    ns: "map (\<lambda>g. g ''file_size_bytes'') (f # fs) = map (\<lambda>n. Some (PInt n)) ns"
    using assms by blast
  have wf: "well_formed f"
    using assms by simp
  obtain name where name: "f ''file_name'' = Some (PStr name)"
    using wf is_strE by (auto simp: well_formed_def)
  obtain ext where ext: "f ''file_extension'' = Some (PStr ext)"
    using wf is_strE by (auto simp: well_formed_def)
  obtain key where key: "f ''partition_key'' = Some key" "is_str_or_none (Some key)"
    using wf is_str_or_noneE [of "f ''partition_key''"] by (auto simp: well_formed_def)
  have u: "urls (f # fs) = Inr us"
    using us by (simp only: urls_eq_Inr)
  have t: "sum_sizes 0 (f # fs) = Inr (sum_list ns)"
    using ns by (simp only: sum_sizes_eq_Inr) auto
  have "summary (f # fs) =
       Inr (PDict [(''urls'', PList us), (''parent_folder'', PStr (parent_folder name)),
                   (''file_extension'', PStr ext), (''partition_key'', key),
                   (''file_size_bytes'', PInt (sum_list ns))])"
    unfolding summary_eq_Inr using u t name ext key(1) by blast
  with us strs ns name ext key show ?thesis
    by blast
qed

section \<open>The example inputs, evaluated\<close>

lemma example_record_wf: "well_formed example_record"
  by (simp add: well_formed_def example_record_def)

lemma example_second_wf: "well_formed example_second"
  by (simp add: well_formed_def example_second_def)

lemma parent_folder_sales: "parent_folder ''sales-data_1.csv'' = ''sales''"
  by code_simp

lemma example_summary:
  "summary [example_record, example_second] =
     Inr (PDict
       [(''urls'', PList [PStr ''https://example.org/sales-data_1.csv'',
                          PStr ''https://example.org/sales-data_2.csv'']),
        (''parent_folder'', PStr ''sales''),
        (''file_extension'', PStr ''.csv''),
        (''partition_key'', PNone),
        (''file_size_bytes'', PInt 12000000000)])"
  by (simp add: summary_def item_at_def getitem_def derive_folder_def parent_folder_sales
      example_record_def example_second_def)

lemma example_summary_single:
  "summary [example_record] =
     Inr (PDict
       [(''urls'', PList [PStr ''https://example.org/sales-data_1.csv'']),
        (''parent_folder'', PStr ''sales''),
        (''file_extension'', PStr ''.csv''),
        (''partition_key'', PNone),
        (''file_size_bytes'', PInt 5000000000)])"
  by (simp add: summary_def item_at_def getitem_def derive_folder_def parent_folder_sales
      example_record_def)

lemma example_main:
  "get_dataset_files (example_lib files) ''secret'' ''dataset-1'' = Inr files"
  "set_api_key (example_lib files) ''secret'' = None"
  "example_argv = [''get_dewey_urls.py'', ''secret'', ''dataset-1'']"
  by (simp_all add: example_lib_def example_argv_def)

lemma example_large_wf: "well_formed example_large"
  by (simp add: well_formed_def example_large_def example_record_def)

lemma json_value_nonempty: "json_value t v \<Longrightarrow> t \<noteq> []"
  by (erule json_value.cases) (auto simp: json_int_def)

lemma present_everywhere:
  assumes "map (\<lambda>g. g k) files = map h xs" and "\<And>x. h x \<noteq> None"
  shows "\<not> list_ex (\<lambda>g. g k = None) files"
proof
  assume "list_ex (\<lambda>g. g k = None) files"
  then obtain g where g: "g \<in> set files" and none: "g k = None"
    unfolding list_ex_iff by blast
  from g have "g k \<in> set (map (\<lambda>g. g k) files)"
    by (simp only: set_map) (rule imageI)
  then have "g k \<in> set (map h xs)"
    by (simp only: assms(1))
  then obtain x where "g k = h x"
    by (auto simp only: set_map)
  with none assms(2) [of x] show False
    by simp
qed

lemma missing_field_fails:
  assumes "missing_field files"
  shows "\<exists>e. summary files = Inl e"
proof (cases "summary files")
  case (Inl e)
  then show ?thesis by blast
next
  case (Inr obj)
  from assms obtain f fs where files: "files = f # fs"
    by (cases files) auto
  from Inr obtain us t where "urls (f # fs) = Inr us" and "sum_sizes 0 (f # fs) = Inr t"
    and first: "f ''file_name'' \<noteq> None" "f ''file_extension'' \<noteq> None"
      "f ''partition_key'' \<noteq> None"
    unfolding files summary_eq_Inr by force
  then obtain ns where l: "map (\<lambda>g. g ''link'') (f # fs) = map Some us"
    and z: "map (\<lambda>g. g ''file_size_bytes'') (f # fs) = map (\<lambda>n. Some (PInt n)) ns"
    unfolding urls_eq_Inr sum_sizes_eq_Inr by blast
  have "\<not> list_ex (\<lambda>g. g ''link'' = None) (f # fs)"
    by (rule present_everywhere [OF l]) simp
  moreover have "\<not> list_ex (\<lambda>g. g ''file_size_bytes'' = None) (f # fs)"
    by (rule present_everywhere [OF z]) simp
  ultimately have "\<not> list_ex (\<lambda>g. lacks g [''link'', ''file_size_bytes'']) (f # fs)"
    by (auto simp: lacks_def list_ex_iff)
  with first have "\<not> missing_field (f # fs)"
    by (simp add: lacks_def)
  with assms files show ?thesis
    by simp
qed

section \<open>The output of the script\<close>

text \<open>
  Claim C2. For a listing of \<open>N \<ge> 1\<close> file-metadata records the script prints the dictionary
  whose \<open>urls\<close> entry is a list of exactly \<open>N\<close> values, the \<open>i\<close>-th of them the \<open>link\<close> field
  of the \<open>i\<close>-th record, in the order of the listing.
\<close>

theorem urls_in_listing_order:
  assumes "argv = [prog, api_key, data_id]"
    and "set_api_key lib api_key = None"
    and "get_dataset_files lib api_key data_id = Inr files"
    and "files \<noteq> []"
    and "list_all well_formed files"
  shows "\<exists>d us. summary files = Inr (PDict d) \<and>
           stdout (main lib argv) = dumps (PDict d) @ [newline] \<and>
           map_of d ''urls'' = Some (PList us) \<and>
           length us = length files \<and>
           (\<forall>i < length files. (files ! i) ''link'' = Some (us ! i))"
proof -
  from assms(4) obtain f fs where files: "files = f # fs"
    by (cases files) auto
  from summary_well_formed [of f fs] assms(5) obtain us d where
    links: "map (\<lambda>g. g ''link'') files = map Some us"
    and s: "summary files = Inr (PDict d)"
    and u: "map_of d ''urls'' = Some (PList us)"
    unfolding files by fastforce
  have len: "length us = length files"
    using links by (metis length_map)
  have nth: "(files ! i) ''link'' = Some (us ! i)" if "i < length files" for i
  proof -
    have "map (\<lambda>g. g ''link'') files ! i = map Some us ! i"
      using links by simp
    then show ?thesis
      using that len by simp
  qed
  have "stdout (main lib argv) = dumps (PDict d) @ [newline]"
    using main_prints [OF assms(1-3) s] by simp
  with s u len nth show ?thesis
    by blast
qed

theorem urls_in_listing_order_witness:
  "\<exists>d us. summary [example_record, example_second] = Inr (PDict d) \<and>
     stdout (main (example_lib [example_record, example_second]) example_argv) =
       dumps (PDict d) @ [newline] \<and>
     map_of d ''urls'' = Some (PList us) \<and>
     length us = 2 \<and>
     example_record ''link'' = Some (us ! 0) \<and>
     example_second ''link'' = Some (us ! 1)"
proof -
  have "[example_record, example_second] \<noteq> []"
    and "list_all well_formed [example_record, example_second]"
    by (simp_all add: example_record_wf example_second_wf)
  from urls_in_listing_order [OF example_main(3) example_main(2) example_main(1) this]
  obtain d us where "summary [example_record, example_second] = Inr (PDict d)"
    and "stdout (main (example_lib [example_record, example_second]) example_argv) =
       dumps (PDict d) @ [newline]"
    and "map_of d ''urls'' = Some (PList us)"
    and "length us = length [example_record, example_second]"
    and nth: "\<forall>i < length [example_record, example_second].
        ([example_record, example_second] ! i) ''link'' = Some (us ! i)"
    by blast
  moreover from nth have "example_record ''link'' = Some (us ! 0)"
    by auto
  moreover from nth have "example_second ''link'' = Some (us ! 1)"
    by auto
  ultimately show ?thesis
    by auto
qed

text \<open>
  Claim C3. For a listing of \<open>N \<ge> 1\<close> records the \<open>file_size_bytes\<close> entry of the printed
  dictionary is the sum, over the unbounded integers, of the \<open>file_size_bytes\<close> fields of
  all the records.
\<close>

theorem total_size_is_exact_sum:
  assumes "argv = [prog, api_key, data_id]"
    and "set_api_key lib api_key = None"
    and "get_dataset_files lib api_key data_id = Inr files"
    and "files \<noteq> []"
    and "list_all well_formed files"
  shows "\<exists>d ns. summary files = Inr (PDict d) \<and>
           stdout (main lib argv) = dumps (PDict d) @ [newline] \<and>
           map (\<lambda>f. f ''file_size_bytes'') files = map (\<lambda>n. Some (PInt n)) ns \<and>
           map_of d ''file_size_bytes'' = Some (PInt (sum_list ns))"
proof -
  from assms(4) obtain f fs where files: "files = f # fs"
    by (cases files) auto
  from summary_well_formed [of f fs] assms(5) obtain ns d where
    ns: "map (\<lambda>g. g ''file_size_bytes'') files = map (\<lambda>n. Some (PInt n)) ns"
    and s: "summary files = Inr (PDict d)"
    and t: "map_of d ''file_size_bytes'' = Some (PInt (sum_list ns))"
    unfolding files by fastforce
  have "stdout (main lib argv) = dumps (PDict d) @ [newline]"
    using main_prints [OF assms(1-3) s] by simp
  with s ns t show ?thesis
    by blast
qed

theorem total_size_is_exact_sum_witness:
  "\<exists>d. summary [example_large, example_large] = Inr (PDict d) \<and>
     stdout (main (example_lib [example_large, example_large]) example_argv) =
       dumps (PDict d) @ [newline] \<and>
     map_of d ''file_size_bytes'' = Some (PInt 18446744073709551614)"
proof -
  have "[example_large, example_large] \<noteq> []"
    and "list_all well_formed [example_large, example_large]"
    by (simp_all add: example_large_wf)
  from total_size_is_exact_sum [OF example_main(3) example_main(2) example_main(1) this]
  obtain d ns where "summary [example_large, example_large] = Inr (PDict d)"
    and "stdout (main (example_lib [example_large, example_large]) example_argv) =
       dumps (PDict d) @ [newline]"
    and ns: "map (\<lambda>f. f ''file_size_bytes'') [example_large, example_large] =
       map (\<lambda>n. Some (PInt n)) ns"
    and "map_of d ''file_size_bytes'' = Some (PInt (sum_list ns))"
    by blast
  moreover from ns have "ns = [9223372036854775807, 9223372036854775807]"
    by (cases ns; cases "tl ns") (auto simp: example_large_def)
  ultimately show ?thesis
    by auto
qed

text \<open>
  Claim C4. For a listing with at least one record the \<open>partition_key\<close> and
  \<open>file_extension\<close> entries of the printed dictionary are the fields of the first record
  as they are; a null \<open>partition_key\<close> stays \<open>None\<close>, which is written as \<^verbatim>\<open>null\<close>.
\<close>

theorem first_record_fields_verbatim:
  assumes "argv = [prog, api_key, data_id]"
    and "set_api_key lib api_key = None"
    and "get_dataset_files lib api_key data_id = Inr files"
    and "files \<noteq> []"
    and "list_all well_formed files"
  shows "\<exists>d. summary files = Inr (PDict d) \<and>
           stdout (main lib argv) = dumps (PDict d) @ [newline] \<and>
           map_of d ''partition_key'' = (files ! 0) ''partition_key'' \<and>
           map_of d ''file_extension'' = (files ! 0) ''file_extension'' \<and>
           ((files ! 0) ''partition_key'' = Some PNone \<longrightarrow>
              map_of d ''partition_key'' = Some PNone \<and> dumps PNone = ''null'')"
proof -
  from assms(4) obtain f fs where files: "files = f # fs"
    by (cases files) auto
  from summary_well_formed [of f fs] assms(5) obtain d where
    s: "summary files = Inr (PDict d)"
    and k: "map_of d ''partition_key'' = f ''partition_key''"
    and e: "map_of d ''file_extension'' = f ''file_extension''"
    unfolding files by fastforce
  have "stdout (main lib argv) = dumps (PDict d) @ [newline]"
    using main_prints [OF assms(1-3) s] by simp
  with s k e show ?thesis
    unfolding files by auto
qed

theorem first_record_fields_verbatim_witness:
  "\<exists>d. summary [example_record, example_second] = Inr (PDict d) \<and>
     stdout (main (example_lib [example_record, example_second]) example_argv) =
       dumps (PDict d) @ [newline] \<and>
     map_of d ''partition_key'' = Some PNone \<and>
     map_of d ''file_extension'' = Some (PStr ''.csv'') \<and>
     dumps PNone = ''null''"
proof -
  have "[example_record, example_second] \<noteq> []"
    and "list_all well_formed [example_record, example_second]"
    by (simp_all add: example_record_wf example_second_wf)
  from first_record_fields_verbatim
    [OF example_main(3) example_main(2) example_main(1) this]
  show ?thesis
    by (auto simp: example_record_def)
qed

text \<open>
  Claim C6. When the listing is empty the script ends with an uncaught \<^verbatim>\<open>IndexError\<close>,
  raised by \<^verbatim>\<open>files[0]\<close>, and nothing on standard output. The links of no records are the
  empty list and the sum over no records would be 0: the failure comes before the
  aggregation and is not a success with the sum 0.
\<close>

theorem empty_listing_fails:
  assumes "argv = [prog, api_key, data_id]"
    and "set_api_key lib api_key = None"
    and "get_dataset_files lib api_key data_id = Inr []"
  shows "main lib argv = \<lparr>stdout = [], uncaught = Some IndexError, exit_status = 1\<rparr> \<and>
         urls [] = Inr [] \<and>
         item_at ([] :: file_record list) 0 = Inl IndexError \<and>
         summary [] = Inl IndexError \<and>
         sum_sizes 0 [] = Inr 0"
  using main_raises [OF assms summary_Nil] by (simp add: summary_Nil item_at_def)

theorem empty_listing_fails_witness:
  "main (example_lib []) example_argv =
     \<lparr>stdout = [], uncaught = Some IndexError, exit_status = 1\<rparr>"
  using empty_listing_fails [OF example_main(3) example_main(2) example_main(1)] by simp

text \<open>
  Claim C7. With fewer than two command-line arguments (\<^verbatim>\<open>sys.argv\<close> holds the path of the
  script in front of them) the script ends with an uncaught \<^verbatim>\<open>IndexError\<close> and a status
  that is not 0, and standard output, which stays empty, holds no JSON text.
\<close>

theorem missing_arguments_fail:
  assumes "length (tl argv) < 2"
  shows "main lib argv = \<lparr>stdout = [], uncaught = Some IndexError, exit_status = 1\<rparr> \<and>
         exit_status (main lib argv) \<noteq> 0 \<and>
         (\<nexists>v. json_value (stdout (main lib argv)) v)"
proof -
  have "script lib argv = Inl IndexError"
  proof (cases "1 < length argv")
    case True
    with assms have "\<not> 2 < length argv"
      by simp
    with True show ?thesis
      by (simp add: script_def item_at_def)
  next
    case False
    then show ?thesis
      by (simp add: script_def item_at_def)
  qed
  then have m: "main lib argv = \<lparr>stdout = [], uncaught = Some IndexError, exit_status = 1\<rparr>"
    by (simp add: main_def)
  moreover have "\<nexists>v. json_value [] v"
    using json_value_nonempty by blast
  ultimately show ?thesis
    by simp
qed

theorem missing_arguments_fail_witness:
  "main (example_lib [example_record]) [''get_dewey_urls.py'', ''secret''] =
     \<lparr>stdout = [], uncaught = Some IndexError, exit_status = 1\<rparr> \<and>
   main (example_lib [example_record]) [''get_dewey_urls.py''] =
     \<lparr>stdout = [], uncaught = Some IndexError, exit_status = 1\<rparr>"
  using missing_arguments_fail [of "[''get_dewey_urls.py'', ''secret'']" "example_lib [example_record]"]
    missing_arguments_fail [of "[''get_dewey_urls.py'']" "example_lib [example_record]"]
  by simp

text \<open>
  Claim C8, as stated: whenever a record lacks a field that the script reads, the
  uncaught exception is the lookup error. This fails for a first record that has no
  \<open>file_extension\<close> and whose \<open>file_name\<close> is not a string: \<^verbatim>\<open>re.sub\<close> is called before
  \<open>file_extension\<close> is looked up and raises \<^verbatim>\<open>TypeError\<close>.
\<close>

theorem missing_field_type_error_counterexample:
  "missing_field [example_ill_typed] \<and>
   main (example_lib [example_ill_typed]) example_argv =
     \<lparr>stdout = [], uncaught = Some TypeError, exit_status = 1\<rparr> \<and>
   uncaught (main (example_lib [example_ill_typed]) example_argv) \<noteq> Some KeyError"
proof -
  have "missing_field [example_ill_typed]"
    by (simp add: lacks_def example_ill_typed_def)
  moreover have "summary [example_ill_typed] = Inl TypeError"
    by (simp add: summary_def item_at_def getitem_def derive_folder_def example_ill_typed_def)
  then have "main (example_lib [example_ill_typed]) example_argv =
     \<lparr>stdout = [], uncaught = Some TypeError, exit_status = 1\<rparr>"
    by (rule main_raises [OF example_main(3) example_main(2) example_main(1)])
  ultimately show ?thesis
    by simp
qed

text \<open>
  Claim C8, amended. When a record lacks a field that the script reads (\<open>link\<close> or
  \<open>file_size_bytes\<close> of any record, \<open>file_name\<close>, \<open>file_extension\<close> or \<open>partition_key\<close> of the
  first), the script ends with an uncaught exception and nothing on standard output;
  for records whose fields, where present, have the types of the data model, the
  exception is the \<^verbatim>\<open>KeyError\<close> of the lookup.
\<close>

theorem missing_field_raises:
  assumes "argv = [prog, api_key, data_id]"
    and "set_api_key lib api_key = None"
    and "get_dataset_files lib api_key data_id = Inr files"
    and "missing_field files"
  shows "stdout (main lib argv) = [] \<and> exit_status (main lib argv) = 1 \<and>
         (\<exists>e. uncaught (main lib argv) = Some e) \<and>
         (list_all typed_where_present files \<longrightarrow>
            main lib argv = \<lparr>stdout = [], uncaught = Some KeyError, exit_status = 1\<rparr>)"
proof -
  from missing_field_fails [OF assms(4)] obtain e where e: "summary files = Inl e"
    by blast
  have m: "main lib argv = \<lparr>stdout = [], uncaught = Some e, exit_status = 1\<rparr>"
    by (rule main_raises [OF assms(1-3) e])
  have "e = KeyError" if "list_all typed_where_present files"
  proof -
    from assms(4) obtain f fs where "files = f # fs"
      by (cases files) auto
    with e that show ?thesis
      using summary_eq_Inl by blast
  qed
  with m show ?thesis
    by simp
qed

theorem missing_field_raises_witness:
  "main (example_lib [example_record, example_no_size]) example_argv =
     \<lparr>stdout = [], uncaught = Some KeyError, exit_status = 1\<rparr> \<and>
   main (example_lib [example_no_key, example_second]) example_argv =
     \<lparr>stdout = [], uncaught = Some KeyError, exit_status = 1\<rparr>"
proof -
  have "missing_field [example_record, example_no_size]"
    and "list_all typed_where_present [example_record, example_no_size]"
    and "missing_field [example_no_key, example_second]"
    and "list_all typed_where_present [example_no_key, example_second]"
    by (simp_all add: lacks_def typed_where_present_def example_no_size_def example_no_key_def
        example_record_def example_second_def)
  with missing_field_raises [OF example_main(3) example_main(2) example_main(1),
      of "[example_record, example_no_size]"]
    missing_field_raises [OF example_main(3) example_main(2) example_main(1),
      of "[example_no_key, example_second]"]
  show ?thesis
    by simp
qed

text \<open>
  Claim C10. The \<open>parent_folder\<close>, \<open>file_extension\<close> and \<open>partition_key\<close> entries of the
  printed dictionary depend on the first record only: two listings with the same first
  record, whatever their other records, give the same three entries.
\<close>

theorem first_record_determines:
  assumes "summary (f # fs) = Inr (PDict d)" and "summary (f # fs') = Inr (PDict d')"
  shows "map_of d ''parent_folder'' = map_of d' ''parent_folder'' \<and>
         map_of d ''file_extension'' = map_of d' ''file_extension'' \<and>
         map_of d ''partition_key'' = map_of d' ''partition_key''"
proof -
  from assms(1) obtain name ext key where "f ''file_name'' = Some (PStr name)"
    and "f ''file_extension'' = Some ext" and "f ''partition_key'' = Some key"
    and "map_of d ''parent_folder'' = Some (PStr (parent_folder name))"
    and "map_of d ''file_extension'' = Some ext"
    and "map_of d ''partition_key'' = Some key"
    unfolding summary_eq_Inr by force
  moreover from assms(2) obtain name' ext' key' where "f ''file_name'' = Some (PStr name')"
    and "f ''file_extension'' = Some ext'" and "f ''partition_key'' = Some key'"
    and "map_of d' ''parent_folder'' = Some (PStr (parent_folder name'))"
    and "map_of d' ''file_extension'' = Some ext'"
    and "map_of d' ''partition_key'' = Some key'"
    unfolding summary_eq_Inr by force
  ultimately show ?thesis
    by simp
qed

theorem first_record_determines_witness:
  "\<exists>d d'. summary [example_record, example_second] = Inr (PDict d) \<and>
     summary [example_record] = Inr (PDict d') \<and>
     map_of d ''parent_folder'' = map_of d' ''parent_folder'' \<and>
     map_of d ''file_extension'' = map_of d' ''file_extension'' \<and>
     map_of d ''partition_key'' = map_of d' ''partition_key'' \<and>
     map_of d ''urls'' \<noteq> map_of d' ''urls'' \<and>
     map_of d ''file_size_bytes'' \<noteq> map_of d' ''file_size_bytes''"
  using first_record_determines [OF example_summary example_summary_single]
  by (simp add: example_summary example_summary_single)

section \<open>The matcher and the substitution\<close>

lemma rematch_suffix: "rematch p s = Some r \<Longrightarrow> suffix r s"
proof (induction p s arbitrary: r rule: rematch.induct)
  case (1 s)
  then show ?case by simp
next
  case (2 a p)
  then show ?case by simp
next
  case (3 a p c cs)
  then show ?case
    by (auto split: if_splits intro: suffix_ConsI)
next
  case (4 p s)
  then show ?case
    by (auto split: if_splits)
next
  case (5 a p)
  then show ?case by simp
next
  case (6 a p c cs)
  show ?case
  proof (cases "accepts a c")
    case True
    show ?thesis
    proof (cases "rematch (Many a # p) cs")
      case None
      with True "6.prems" "6.IH"(2) show ?thesis
        by simp
    next
      case (Some r')
      with True "6.prems" have "r' = r"
        by simp
      with Some True "6.IH"(1) show ?thesis
        by (auto intro: suffix_ConsI)
    qed
  next
    case False
    with "6.prems" "6.IH"(3) show ?thesis
      by simp
  qed
qed

text \<open>Replacing matches by the empty text only deletes characters.\<close>

lemma re_sub_subseq: "subseq (re_sub p [] s) s"
proof (induction p "[] :: string" s rule: re_sub.induct)
  case (1 p s)
  show ?case
  proof (cases "rematch p s")
    case None
    show ?thesis
    proof (cases s)
      case Nil
      with None show ?thesis
        by (simp add: re_sub.simps)
    next
      case (Cons c cs)
      with None "1.hyps"(1) have "subseq (re_sub p [] cs) cs"
        by simp
      with None Cons show ?thesis
        by (subst re_sub.simps) simp
    qed
  next
    case (Some r)
    show ?thesis
    proof (cases "length r < length s")
      case True
      with Some "1.hyps"(2) have "subseq (re_sub p [] r) r"
        by simp
      moreover have "subseq r s"
        using rematch_suffix [OF Some] by (rule suffix_imp_subseq)
      ultimately have "subseq (re_sub p [] r) s"
        by (rule subseq_order.trans)
      with Some True show ?thesis
        by (subst re_sub.simps) simp
    next
      case False
      show ?thesis
      proof (cases s)
        case Nil
        with Some False show ?thesis
          by (subst re_sub.simps) simp
      next
        case (Cons c cs)
        with Some False "1.hyps"(3) have "subseq (re_sub p [] cs) cs"
          by simp
        with Some False Cons show ?thesis
          by (subst re_sub.simps) simp
      qed
    qed
  qed
qed

lemma parent_folder_subseq: "subseq (parent_folder s) s"
  unfolding parent_folder_def
  by (rule subseq_order.trans [OF re_sub_subseq re_sub_subseq])

section \<open>File names without a newline\<close>

lemma rematch_rest_of_line: "newline \<notin> set cs \<Longrightarrow> rematch [Many Dot, Dollar] cs = Some []"
  by (induction cs) (auto simp: at_end_def)

lemma rematch_shard_suffix:
  assumes "newline \<notin> set s"
  shows "rematch shard_suffix s =
     (case s of
        c # d # cs \<Rightarrow> if c \<in> set ''-_'' \<and> is_digit d then Some [] else None
      | _ \<Rightarrow> None)"
proof (cases s)
  case Nil
  then show ?thesis by (simp add: shard_suffix_def)
next
  case (Cons c s')
  show ?thesis
  proof (cases s')
    case Nil
    with Cons show ?thesis by (simp add: shard_suffix_def)
  next
    case (Cons d cs)
    with assms \<open>s = c # s'\<close> have "rematch [Many Dot, Dollar] cs = Some []"
      by (simp add: rematch_rest_of_line)
    with Cons \<open>s = c # s'\<close> show ?thesis
      by (simp add: shard_suffix_def)
  qed
qed

lemma re_sub_Nil_shard_suffix: "re_sub shard_suffix [] [] = []"
  by (subst re_sub.simps) (simp add: shard_suffix_def)

lemma re_sub_shard_suffix: "newline \<notin> set s \<Longrightarrow> re_sub shard_suffix [] s = strip_shard s"
proof (induction s rule: strip_shard.induct)
  case (1 c d cs)
  show ?case
  proof (cases "c \<in> set ''-_'' \<and> is_digit d")
    case True
    with rematch_shard_suffix [OF "1.prems"] have "rematch shard_suffix (c # d # cs) = Some []"
      by simp
    with True show ?thesis
      by (subst re_sub.simps) (simp add: re_sub_Nil_shard_suffix)
  next
    case False
    with rematch_shard_suffix [OF "1.prems"] have "rematch shard_suffix (c # d # cs) = None"
      by simp
    moreover from False "1.prems" "1.IH" have "re_sub shard_suffix [] (d # cs) = strip_shard (d # cs)"
      by simp
    ultimately show ?thesis
      using False by (subst re_sub.simps) simp
  qed
next
  case "2_1"
  show ?case by (simp add: re_sub_Nil_shard_suffix)
next
  fix v :: char
  assume "newline \<notin> set [v]"
  from rematch_shard_suffix [OF this] have "rematch shard_suffix [v] = None"
    by simp
  then show "re_sub shard_suffix [] [v] = strip_shard [v]"
    by (subst re_sub.simps) (simp add: re_sub_Nil_shard_suffix)
qed

lemma rematch_literal:
  "rematch (map (\<lambda>a. One (Lit a)) lit @ [Dollar]) s =
     (if prefix lit s \<and> at_end (drop (length lit) s) then Some (drop (length lit) s) else None)"
proof (induction lit arbitrary: s)
  case Nil
  show ?case by simp
next
  case (Cons a lit)
  show ?case
    by (cases s) (simp_all add: Cons.IH)
qed

lemma data_suffix_literal: "data_suffix = map (\<lambda>a. One (Lit a)) ''-data'' @ [Dollar]"
  by (simp add: data_suffix_def)

lemma rematch_data_suffix:
  assumes "newline \<notin> set s"
  shows "rematch data_suffix s = (if s = ''-data'' then Some [] else None)"
proof -
  have len: "length ''-data'' = 5"
    by simp
  have m: "rematch data_suffix s =
    (if prefix ''-data'' s \<and> at_end (drop 5 s) then Some (drop 5 s) else None)"
    unfolding data_suffix_literal rematch_literal len by (rule refl)
  have "newline \<notin> set (drop 5 s)"
    using assms in_set_dropD [of newline 5 s] by blast
  then have e: "at_end (drop 5 s) \<longleftrightarrow> drop 5 s = []"
    by (auto simp: at_end_def)
  have "prefix ''-data'' s \<and> drop 5 s = [] \<longleftrightarrow> s = ''-data''"
  proof
    assume "prefix ''-data'' s \<and> drop 5 s = []"
    then obtain r where "s = ''-data'' @ r" and "drop 5 s = []"
      by (auto simp: prefix_def)
    then show "s = ''-data''"
      by simp
  next
    assume "s = ''-data''"
    then show "prefix ''-data'' s \<and> drop 5 s = []"
      by simp
  qed
  with m e show ?thesis
    by auto
qed

lemma strip_data_Cons:
  assumes "c # cs \<noteq> ''-data''"
  shows "strip_data (c # cs) = c # strip_data cs"
proof (cases "suffix ''-data'' cs")
  case True
  then have "5 \<le> length cs"
    using suffix_length_le by fastforce
  then have "Suc (length cs) - 5 = Suc (length cs - 5)"
    by simp
  with True show ?thesis
    by (simp add: strip_data_def suffix_ConsI)
next
  case False
  with assms have "\<not> suffix ''-data'' (c # cs)"
    unfolding suffix_Cons by (metis)
  with False show ?thesis
    by (simp add: strip_data_def)
qed

lemma re_sub_data_suffix: "newline \<notin> set s \<Longrightarrow> re_sub data_suffix [] s = strip_data s"
proof (induction s)
  case Nil
  have "rematch data_suffix [] = None"
    by (simp add: rematch_data_suffix)
  then show ?case
    by (subst re_sub.simps) (simp add: strip_data_def)
next
  case (Cons c cs)
  show ?case
  proof (cases "c # cs = ''-data''")
    case True
    have "re_sub data_suffix [] [] = []"
      by (subst re_sub.simps) (simp add: rematch_data_suffix)
    moreover have "rematch data_suffix (c # cs) = Some []"
      using True by (simp add: rematch_data_suffix newline_def)
    ultimately have "re_sub data_suffix [] (c # cs) = []"
      by (subst re_sub.simps) simp
    with True show ?thesis
      by (simp add: strip_data_def)
  next
    case False
    with rematch_data_suffix [OF Cons.prems] have "rematch data_suffix (c # cs) = None"
      by simp
    then have "re_sub data_suffix [] (c # cs) = c # re_sub data_suffix [] cs"
      by (subst re_sub.simps) simp
    with Cons False show ?thesis
      by (simp add: strip_data_Cons)
  qed
qed

lemma strip_shard_prefix: "prefix (strip_shard s) s"
  by (induction s rule: strip_shard.induct) simp_all

lemma strip_data_prefix: "prefix (strip_data s) s"
  by (simp add: strip_data_def take_is_prefix)

lemma parent_folder_no_newline:
  assumes "newline \<notin> set s"
  shows "parent_folder s = spec_parent_folder s"
proof -
  have "set (strip_shard s) \<subseteq> set s"
    using strip_shard_prefix by (rule set_mono_prefix)
  with assms have "newline \<notin> set (strip_shard s)"
    by blast
  with assms show ?thesis
    by (simp add: parent_folder_def spec_parent_folder_def re_sub_shard_suffix re_sub_data_suffix)
qed

lemma spec_parent_folder_prefix: "prefix (spec_parent_folder s) s"
  unfolding spec_parent_folder_def
  by (rule prefix_order.trans [OF strip_data_prefix strip_shard_prefix])

section \<open>The folder name\<close>

lemma parent_folder_airline:
  "parent_folder ''airline-employment-data_0_0_0.snappy.parquet'' = ''airline-employment''"
  by code_simp

lemma parent_folder_report: "parent_folder ''report.csv'' = ''report.csv''"
  by code_simp

lemma parent_folder_final_newline: "parent_folder name_with_newline = ''a'' @ [newline]"
  by code_simp

lemma spec_parent_folder_final_newline: "spec_parent_folder name_with_newline = ''a''"
  by code_simp

text \<open>
  Claim C1, as the specification words it: the folder name is the file name with the
  first hyphen or underscore that a digit follows removed together with everything up
  to the end of the string, and then with a trailing \<^verbatim>\<open>-data\<close> removed. This fails for a
  file name that ends in a newline: the script keeps the newline.
\<close>

theorem folder_name_newline_counterexample:
  "parent_folder name_with_newline = ''a'' @ [newline] \<and>
   spec_parent_folder name_with_newline = ''a'' \<and>
   parent_folder name_with_newline \<noteq> spec_parent_folder name_with_newline"
  unfolding parent_folder_final_newline spec_parent_folder_final_newline by simp

text \<open>
  Claim C1, amended: for a file name without a newline the folder name is the result
  of the two cleanups of the specification, applied in this order; and the three file
  names of the specification give \<^verbatim>\<open>airline-employment\<close>, \<^verbatim>\<open>sales\<close> and \<^verbatim>\<open>report.csv\<close>.
\<close>

theorem folder_name_cleanup:
  "(newline \<notin> set file_name \<longrightarrow>
      parent_folder file_name = strip_data (strip_shard file_name)) \<and>
   parent_folder ''airline-employment-data_0_0_0.snappy.parquet'' = ''airline-employment'' \<and>
   parent_folder ''sales-data_1.csv'' = ''sales'' \<and>
   parent_folder ''report.csv'' = ''report.csv''"
  using parent_folder_no_newline [of file_name]
  by (simp add: spec_parent_folder_def parent_folder_airline parent_folder_sales
      parent_folder_report)

theorem folder_name_cleanup_witness:
  "newline \<notin> set ''sales-data_2.csv'' \<and>
   strip_shard ''sales-data_2.csv'' = ''sales-data'' \<and>
   strip_data ''sales-data'' = ''sales'' \<and>
   parent_folder ''sales-data_2.csv'' = ''sales''"
proof -
  have n: "newline \<notin> set ''sales-data_2.csv''"
    by (simp add: newline_def)
  have a: "strip_shard ''sales-data_2.csv'' = ''sales-data''"
    by (simp add: is_digit_def)
  have b: "strip_data ''sales-data'' = ''sales''"
    by code_simp
  from folder_name_cleanup [of "''sales-data_2.csv''"] n
  have "parent_folder ''sales-data_2.csv'' = strip_data (strip_shard ''sales-data_2.csv'')"
    by blast
  with n a b show ?thesis
    by simp
qed

text \<open>
  Claim C9, as stated: the folder name is a prefix of the file name. This fails for a
  file name that ends in a newline, where the cleanup deletes from the middle.
\<close>

theorem folder_name_prefix_counterexample:
  "\<not> prefix (parent_folder name_with_newline) name_with_newline"
proof -
  have "\<not> prefix (''a'' @ [newline]) name_with_newline"
    by (simp add: name_with_newline_def newline_def)
  then show ?thesis
    by (simp add: parent_folder_final_newline)
qed

text \<open>
  Claim C9, amended: the cleanup only deletes characters, so the folder name is a
  subsequence of the file name (nothing is inserted, replaced or reordered); for a file
  name without a newline it is a prefix of the file name.
\<close>

theorem folder_name_deletes_only:
  "subseq (parent_folder file_name) file_name \<and>
   (newline \<notin> set file_name \<longrightarrow> prefix (parent_folder file_name) file_name)"
  using parent_folder_subseq [of file_name] parent_folder_no_newline [of file_name]
    spec_parent_folder_prefix [of file_name]
  by simp

theorem folder_name_deletes_only_witness:
  "newline \<notin> set ''sales-data_1.csv'' \<and>
   parent_folder ''sales-data_1.csv'' = ''sales'' \<and>
   prefix (parent_folder ''sales-data_1.csv'') ''sales-data_1.csv'' \<and>
   subseq (parent_folder ''sales-data_1.csv'') ''sales-data_1.csv''"
proof -
  have n: "newline \<notin> set ''sales-data_1.csv''"
    by (simp add: newline_def)
  with folder_name_deletes_only [of "''sales-data_1.csv''"] show ?thesis
    by (simp add: parent_folder_sales)
qed

section \<open>Numbers as JSON texts\<close>

lemma below_ten:
  assumes "n < (10 :: nat)"
  obtains "n = 0" | "n = 1" | "n = 2" | "n = 3" | "n = 4" | "n = 5" | "n = 6" | "n = 7"
    | "n = 8" | "n = 9"
  using assms by atomize_elim arith

lemma digit_char_is_digit: "n < 10 \<Longrightarrow> is_digit (digit_char n)"
  by (erule below_ten) (simp_all add: digit_char_def is_digit_def)

lemma digit_char_value: "n < 10 \<Longrightarrow> of_char (digit_char n) - 48 = n"
  by (erule below_ten) (simp_all add: digit_char_def)

lemma digit_char_zero: "n < 10 \<Longrightarrow> digit_char n = CHR ''0'' \<Longrightarrow> n = 0"
  by (erule below_ten) (simp_all add: digit_char_def)

lemma is_digit_not_minus: "is_digit c \<Longrightarrow> c \<noteq> CHR ''-''"
  by (auto simp: is_digit_def)

lemma is_digit_not_newline: "is_digit c \<Longrightarrow> c \<noteq> newline"
  by (auto simp: is_digit_def newline_def)

lemma dec_nonempty: "dec n \<noteq> []"
  by (subst dec.simps) simp

lemma dec_digits: "list_all is_digit (dec n)"
proof (induction n rule: dec.induct)
  case (1 n)
  show ?case
  proof (cases "n < 10")
    case True
    then show ?thesis
      by (subst dec.simps) (simp add: digit_char_is_digit)
  next
    case False
    with "1.IH" show ?thesis
      by (subst dec.simps) (simp add: digit_char_is_digit)
  qed
qed

lemma digits_value_snoc:
  "digits_value (ds @ [c]) = 10 * digits_value ds + (of_char c - 48)"
  by (simp add: digits_value_def)

lemma dec_value: "digits_value (dec n) = n"
proof (induction n rule: dec.induct)
  case (1 n)
  show ?case
  proof (cases "n < 10")
    case True
    then show ?thesis
      by (subst dec.simps) (simp add: digits_value_def digit_char_value)
  next
    case False
    with "1.IH" show ?thesis
      by (subst dec.simps) (simp add: digits_value_snoc digit_char_value)
  qed
qed

lemma dec_no_leading_zero: "0 < n \<Longrightarrow> hd (dec n) \<noteq> CHR ''0''"
proof (induction n rule: dec.induct)
  case (1 n)
  show ?case
  proof (cases "n < 10")
    case True
    with "1.prems" show ?thesis
      by (subst dec.simps) (auto dest: digit_char_zero)
  next
    case False
    then have "0 < n div 10"
      by simp
    with False "1.IH" have "hd (dec (n div 10)) \<noteq> CHR ''0''"
      by simp
    with False show ?thesis
      by (subst dec.simps) (simp add: dec_nonempty)
  qed
qed

lemma dec_json_digits: "json_digits (dec n)"
proof (cases "n = 0")
  case True
  then show ?thesis
    by (subst dec.simps) (simp add: json_digits_def digit_char_is_digit)
next
  case False
  then show ?thesis
    by (simp add: json_digits_def dec_nonempty dec_digits dec_no_leading_zero)
qed

lemma str_int_json: "json_int (str_int i) i"
proof (cases "i < 0")
  case True
  then show ?thesis
    by (simp add: str_int_def json_int_def dec_json_digits dec_value)
next
  case False
  obtain c ds where d: "dec (nat i) = c # ds"
    using dec_nonempty [of "nat i"] by (cases "dec (nat i)") auto
  with dec_digits [of "nat i"] have "c \<noteq> CHR ''-''"
    by (simp add: is_digit_not_minus)
  moreover have "json_digits (c # ds)" and "digits_value (c # ds) = nat i"
    using dec_json_digits [of "nat i"] dec_value [of "nat i"] d by simp_all
  ultimately show ?thesis
    using False d by (simp add: str_int_def json_int_def)
qed

lemma str_int_no_newline: "newline \<notin> set (str_int i)"
proof -
  have "newline \<notin> set (dec n)" for n
    using dec_digits [of n] is_digit_not_newline by (auto simp: list_all_iff)
  then show ?thesis
    by (simp add: str_int_def newline_def)
qed

section \<open>Strings as JSON texts\<close>

lemma below_sixteen:
  assumes "n < (16 :: nat)"
  obtains "n = 0" | "n = 1" | "n = 2" | "n = 3" | "n = 4" | "n = 5" | "n = 6" | "n = 7"
    | "n = 8" | "n = 9" | "n = 10" | "n = 11" | "n = 12" | "n = 13" | "n = 14" | "n = 15"
  using assms by atomize_elim arith

lemma hex_digit_table:
  "list_all (\<lambda>n. hex_value (hex_digit n) = Some n \<and> hex_digit n \<noteq> newline) [0 ..< 16]"
  by code_simp

lemma hex_value_hex_digit: "n < 16 \<Longrightarrow> hex_value (hex_digit n) = Some n"
  using hex_digit_table by (simp add: list_all_iff)

lemma hex_digit_no_newline: "n < 16 \<Longrightarrow> hex_digit n \<noteq> newline"
  using hex_digit_table by (simp add: list_all_iff)

lemma hex_value_zero: "hex_value CHR ''0'' = Some 0"
  by code_simp

lemma of_char_nibbles: "of_char c div 16 < (16 :: nat)" "of_char c mod 16 < (16 :: nat)"
proof -
  have "of_char c < (256 :: nat)"
    by simp
  then show "of_char c div 16 < (16 :: nat)"
    by arith
  show "of_char c mod 16 < (16 :: nat)"
    by simp
qed

lemma short_escapes_mem:
  "(dquote, dquote) \<in> set short_escapes" "(backslash, backslash) \<in> set short_escapes"
  "(CHR ''b'', CHR 0x08) \<in> set short_escapes" "(CHR ''f'', CHR 0x0C) \<in> set short_escapes"
  "(CHR ''n'', newline) \<in> set short_escapes" "(CHR ''r'', CHR 0x0D) \<in> set short_escapes"
  "(CHR ''t'', CHR 0x09) \<in> set short_escapes"
  by (simp_all add: short_escapes_def newline_def)

lemma escape_char_special:
  "escape_char dquote = [backslash, dquote]" "escape_char backslash = [backslash, backslash]"
  "escape_char (CHR 0x08) = [backslash, CHR ''b'']"
  "escape_char (CHR 0x0C) = [backslash, CHR ''f'']"
  "escape_char newline = [backslash, CHR ''n'']"
  "escape_char (CHR 0x0D) = [backslash, CHR ''r'']"
  "escape_char (CHR 0x09) = [backslash, CHR ''t'']"
  by (simp_all add: escape_char_def dquote_def backslash_def newline_def)

lemma escape_char_cases:
  obtains (short) e where "(e, c) \<in> set short_escapes" and "escape_char c = [backslash, e]"
    and "e \<noteq> newline"
  | (plain) "unescaped c" and "escape_char c = [c]" and "c \<noteq> newline"
  | (unicode) "escape_char c =
      [backslash, CHR ''u'', CHR ''0'', CHR ''0'',
       hex_digit (of_char c div 16), hex_digit (of_char c mod 16)]"
proof (cases "c \<in> {backslash, dquote, CHR 0x08, CHR 0x0C, newline, CHR 0x0D, CHR 0x09}")
  case True
  then consider "c = dquote" | "c = backslash" | "c = CHR 0x08" | "c = CHR 0x0C"
    | "c = newline" | "c = CHR 0x0D" | "c = CHR 0x09"
    by blast
  then show ?thesis
  proof cases
    case 1
    show ?thesis
      by (rule short [of dquote])
         (simp_all add: 1 short_escapes_mem escape_char_special, simp add: dquote_def newline_def)
  next
    case 2
    show ?thesis
      by (rule short [of backslash])
         (simp_all add: 2 short_escapes_mem escape_char_special, simp add: backslash_def newline_def)
  next
    case 3
    show ?thesis
      by (rule short [of "CHR ''b''"])
         (simp_all add: 3 short_escapes_mem escape_char_special, simp add: newline_def)
  next
    case 4
    show ?thesis
      by (rule short [of "CHR ''f''"])
         (simp_all add: 4 short_escapes_mem escape_char_special, simp add: newline_def)
  next
    case 5
    show ?thesis
      by (rule short [of "CHR ''n''"])
         (simp_all add: 5 short_escapes_mem escape_char_special, simp add: newline_def)
  next
    case 6
    show ?thesis
      by (rule short [of "CHR ''r''"])
         (simp_all add: 6 short_escapes_mem escape_char_special, simp add: newline_def)
  next
    case 7
    show ?thesis
      by (rule short [of "CHR ''t''"])
         (simp_all add: 7 short_escapes_mem escape_char_special, simp add: newline_def)
  qed
next
  case False
  then have special: "c \<noteq> backslash" "c \<noteq> dquote" "c \<noteq> CHR 0x08" "c \<noteq> CHR 0x0C"
    "c \<noteq> newline" "c \<noteq> CHR 0x0D" "c \<noteq> CHR 0x09"
    by simp_all
  show ?thesis
  proof (cases "0x20 \<le> (of_char c :: nat) \<and> (of_char c :: nat) \<le> 0x7E")
    case True
    with special have "escape_char c = [c]" and "unescaped c"
      by (simp_all add: escape_char_def unescaped_def)
    with special(5) show ?thesis
      using plain by blast
  next
    case False
    with special have "escape_char c =
      [backslash, CHR ''u'', CHR ''0'', CHR ''0'',
       hex_digit (of_char c div 16), hex_digit (of_char c mod 16)]"
      by (simp add: escape_char_def)
    then show ?thesis
      using unicode by blast
  qed
qed

lemma escape_char_json:
  assumes "json_chars t s"
  shows "json_chars (escape_char c @ t) (c # s)"
proof (cases c rule: escape_char_cases)
  case (short e)
  with assms show ?thesis
    by (simp add: chars_short)
next
  case plain
  with assms show ?thesis
    by (simp add: chars_plain)
next
  case unicode
  let ?n = "of_char c :: nat"
  have v: "4096 * 0 + 256 * 0 + 16 * (?n div 16) + ?n mod 16 = ?n"
    by simp
  have "json_chars
     (backslash # CHR ''u'' # CHR ''0'' # CHR ''0'' # hex_digit (?n div 16) #
        hex_digit (?n mod 16) # t)
     (char_of (4096 * 0 + 256 * 0 + 16 * (?n div 16) + ?n mod 16) # s)"
    using hex_value_zero hex_value_zero hex_value_hex_digit [OF of_char_nibbles(1)]
      hex_value_hex_digit [OF of_char_nibbles(2)] _ assms
  proof (rule chars_unicode)
    show "4096 * 0 + 256 * 0 + 16 * (?n div 16) + ?n mod 16 < 256"
      unfolding v by simp
  qed
  then show ?thesis
    unfolding v unicode by simp
qed

lemma escaped_json: "json_chars (concat (map escape_char s)) s"
  by (induction s) (simp_all add: chars_end escape_char_json)

lemma encode_string_json: "json_value (encode_string s) (PStr s)"
  unfolding encode_string_def by (rule value_string) (rule escaped_json)

lemma escape_char_no_newline: "newline \<notin> set (escape_char c)"
proof (cases c rule: escape_char_cases)
  case (short e)
  then show ?thesis
    by (simp add: backslash_def newline_def)
next
  case plain
  then show ?thesis
    by simp
next
  case unicode
  have "hex_digit (of_char c div 16) \<noteq> newline" and "hex_digit (of_char c mod 16) \<noteq> newline"
    by (simp_all add: hex_digit_no_newline of_char_nibbles)
  moreover have "backslash \<noteq> newline" and "CHR ''u'' \<noteq> newline" and "CHR ''0'' \<noteq> newline"
    by (simp_all add: backslash_def newline_def)
  ultimately show ?thesis
    unfolding unicode by simp
qed

lemma encode_string_no_newline: "newline \<notin> set (encode_string s)"
  using escape_char_no_newline by (auto simp: encode_string_def dquote_def newline_def)

section \<open>The encoder writes JSON\<close>

lemma is_ws_simps [simp]: "is_ws []" "is_ws '' ''"
  by (simp_all add: is_ws_def)

lemma join_Cons: "xs \<noteq> [] \<Longrightarrow> join sep (x # xs) = x @ sep @ join sep xs"
  by (cases xs) simp_all

lemma join_avoids:
  assumes "c \<notin> set sep" and "\<And>x. x \<in> set xs \<Longrightarrow> c \<notin> set x"
  shows "c \<notin> set (join sep xs)"
  using assms by (induction sep xs rule: join.induct) simp_all

lemma elements_json:
  assumes "vs \<noteq> []" and "\<And>v. v \<in> set vs \<Longrightarrow> json_value (dumps v) v" and "is_ws w"
  shows "json_elements (w @ join '', '' (map dumps vs)) vs"
  using assms
proof (induction vs arbitrary: w)
  case Nil
  then show ?case by simp
next
  case (Cons v vs)
  have v: "json_value (dumps v) v"
    by (simp add: Cons.prems(2))
  show ?case
  proof (cases "vs = []")
    case True
    have "json_elements (w @ dumps v @ []) [v]"
      using Cons.prems(3) v by (rule elements_last) simp
    with True show ?thesis
      by simp
  next
    case False
    have "json_elements ('' '' @ join '', '' (map dumps vs)) vs"
      using False Cons.prems(2) by (intro Cons.IH) simp_all
    with Cons.prems(3) v
    have "json_elements (w @ dumps v @ [] @ '','' @ '' '' @ join '', '' (map dumps vs)) (v # vs)"
      by (intro elements_more) simp_all
    with False show ?thesis
      by (simp add: join_Cons)
  qed
qed

lemma members_json:
  assumes "kvs \<noteq> []" and "\<And>k v. (k, v) \<in> set kvs \<Longrightarrow> json_value (dumps v) v" and "is_ws w"
  shows "json_members
    (w @ join '', '' (map (\<lambda>kv. encode_string (fst kv) @ '': '' @ dumps (snd kv)) kvs)) kvs"
  using assms
proof (induction kvs arbitrary: w)
  case Nil
  then show ?case by simp
next
  case (Cons kv kvs)
  obtain k v where kv: "kv = (k, v)"
    by (cases kv)
  have v: "json_value (dumps v) v"
    using Cons.prems(2) [of k v] kv by simp
  let ?b = "concat (map escape_char k)"
  have member: "encode_string (fst kv) @ '': '' @ dumps (snd kv) =
    dquote # ?b @ [dquote] @ [] @ '':'' @ '' '' @ dumps v @ []"
    by (simp add: kv encode_string_def)
  show ?case
  proof (cases "kvs = []")
    case True
    have "json_members (w @ dquote # ?b @ [dquote] @ [] @ '':'' @ '' '' @ dumps v @ []) [(k, v)]"
      using Cons.prems(3) escaped_json [of k] v by (intro members_last) simp_all
    with True show ?thesis
      by (simp add: kv encode_string_def)
  next
    case False
    have "json_members
      ('' '' @ join '', '' (map (\<lambda>kv. encode_string (fst kv) @ '': '' @ dumps (snd kv)) kvs)) kvs"
    proof (rule Cons.IH)
      show "kvs \<noteq> []"
        by fact
      show "json_value (dumps v') v'" if "(k', v') \<in> set kvs" for k' v'
        using Cons.prems(2) [of k' v'] that by simp
      show "is_ws '' ''"
        by simp
    qed
    with Cons.prems(3) escaped_json [of k] v
    have "json_members
      (w @ dquote # ?b @ [dquote] @ [] @ '':'' @ '' '' @ dumps v @ [] @ '','' @ '' '' @
         join '', '' (map (\<lambda>kv. encode_string (fst kv) @ '': '' @ dumps (snd kv)) kvs))
      ((k, v) # kvs)"
      by (intro members_more) simp_all
    with False show ?thesis
      by (simp add: join_Cons kv encode_string_def)
  qed
qed

text \<open>What \<^verbatim>\<open>json.dumps\<close> writes is a JSON text, and it denotes the value that was written.\<close>

lemma dumps_json: "json_value (dumps v) v"
proof (induction v)
  case PNone
  show ?case by (simp add: value_null)
next
  case (PInt i)
  show ?case by (simp add: value_number str_int_json)
next
  case (PStr s)
  show ?case by (simp add: encode_string_json)
next
  case (PList vs)
  show ?case
  proof (cases "vs = []")
    case True
    have "json_value (''['' @ [] @ '']'') (PList [])"
      by (rule value_empty_array) simp
    with True show ?thesis
      by simp
  next
    case False
    then have "json_elements ([] @ join '', '' (map dumps vs)) vs"
      using PList.IH by (intro elements_json) simp_all
    then have "json_value (''['' @ join '', '' (map dumps vs) @ '']'') (PList vs)"
      using value_array by simp
    then show ?thesis
      by simp
  qed
next
  case (PDict kvs)
  have each: "json_value (dumps v) v" if "(k, v) \<in> set kvs" for k v
    using PDict.IH [of "(k, v)" v] that by simp
  show ?case
  proof (cases "kvs = []")
    case True
    have "json_value (''{'' @ [] @ ''}'') (PDict [])"
      by (rule value_empty_object) simp
    with True show ?thesis
      by simp
  next
    case False
    then have "json_members
      ([] @ join '', '' (map (\<lambda>kv. encode_string (fst kv) @ '': '' @ dumps (snd kv)) kvs)) kvs"
      using each by (intro members_json) simp_all
    then have "json_value
      (''{'' @ join '', '' (map (\<lambda>kv. encode_string (fst kv) @ '': '' @ dumps (snd kv)) kvs) @ ''}'')
      (PDict kvs)"
      using value_object by simp
    then show ?thesis
      by simp
  qed
qed

text \<open>The text is a single line.\<close>

lemma dumps_no_newline: "newline \<notin> set (dumps v)"
proof (induction v)
  case PNone
  show ?case by (simp add: newline_def)
next
  case (PInt i)
  show ?case by (simp add: str_int_no_newline)
next
  case (PStr s)
  show ?case by (simp add: encode_string_no_newline)
next
  case (PList vs)
  have "newline \<notin> set (join '', '' (map dumps vs))"
  proof (rule join_avoids)
    show "newline \<notin> set '', ''"
      by (simp add: newline_def)
    show "newline \<notin> set x" if "x \<in> set (map dumps vs)" for x
      using that PList.IH by auto
  qed
  then show ?case
    by (simp add: newline_def)
next
  case (PDict kvs)
  have "newline \<notin>
    set (join '', '' (map (\<lambda>kv. encode_string (fst kv) @ '': '' @ dumps (snd kv)) kvs))"
  proof (rule join_avoids)
    show "newline \<notin> set '', ''"
      by (simp add: newline_def)
    show "newline \<notin> set x"
      if "x \<in> set (map (\<lambda>kv. encode_string (fst kv) @ '': '' @ dumps (snd kv)) kvs)" for x
    proof -
      from that obtain k v where "(k, v) \<in> set kvs"
        and x: "x = encode_string k @ '': '' @ dumps v"
        by auto
      then have "newline \<notin> set (dumps v)"
        using PDict.IH [of "(k, v)" v] by simp
      with x encode_string_no_newline [of k] show ?thesis
        by (simp add: newline_def)
    qed
  qed
  then show ?case
    by (simp add: newline_def)
qed

section \<open>The printed line\<close>

lemma dec_example: "dec 5000000000 = ''5000000000''"
  by (simp add: dec.simps digit_char_def)

lemma str_int_example: "str_int 5000000000 = ''5000000000''"
  by (simp add: str_int_def dec_example)

lemma example_dumps:
  "dumps (PDict
       [(''urls'', PList [PStr ''https://example.org/sales-data_1.csv'']),
        (''parent_folder'', PStr ''sales''),
        (''file_extension'', PStr ''.csv''),
        (''partition_key'', PNone),
        (''file_size_bytes'', PInt 5000000000)]) = example_output"
proof -
  have e: "encode_string ''urls'' = quoted ''urls''"
    "encode_string ''https://example.org/sales-data_1.csv'' =
       quoted ''https://example.org/sales-data_1.csv''"
    "encode_string ''parent_folder'' = quoted ''parent_folder''"
    "encode_string ''sales'' = quoted ''sales''"
    "encode_string ''file_extension'' = quoted ''file_extension''"
    "encode_string ''.csv'' = quoted ''.csv''"
    "encode_string ''partition_key'' = quoted ''partition_key''"
    "encode_string ''file_size_bytes'' = quoted ''file_size_bytes''"
    by code_simp+
  show ?thesis
    by (simp add: e str_int_example example_output_def)
qed

text \<open>
  Claim C5. With two arguments and a listing of at least one well-formed record, the
  script ends normally and standard output is one line and nothing else: the text of
  a JSON object, without a newline in it, followed by a newline. The object has the
  five members \<open>urls\<close>, \<open>parent_folder\<close>, \<open>file_extension\<close>, \<open>partition_key\<close> and
  \<open>file_size_bytes\<close>, written in this order.
\<close>

theorem single_line_of_json:
  assumes "argv = [prog, api_key, data_id]"
    and "set_api_key lib api_key = None"
    and "get_dataset_files lib api_key data_id = Inr files"
    and "files \<noteq> []"
    and "list_all well_formed files"
  shows "\<exists>line d.
           main lib argv = \<lparr>stdout = line @ [newline], uncaught = None, exit_status = 0\<rparr> \<and>
           newline \<notin> set line \<and>
           json_value line (PDict d) \<and>
           map fst d =
             [''urls'', ''parent_folder'', ''file_extension'', ''partition_key'',
              ''file_size_bytes''] \<and>
           summary files = Inr (PDict d) \<and> line = dumps (PDict d)"
proof -
  from assms(4) obtain f fs where files: "files = f # fs"
    by (cases files) auto
  from summary_well_formed [of f fs] assms(5) obtain d where
    s: "summary files = Inr (PDict d)"
    and keys: "map fst d =
      [''urls'', ''parent_folder'', ''file_extension'', ''partition_key'', ''file_size_bytes'']"
    unfolding files by fastforce
  have "main lib argv =
    \<lparr>stdout = dumps (PDict d) @ [newline], uncaught = None, exit_status = 0\<rparr>"
    by (rule main_prints [OF assms(1-3) s])
  with s keys dumps_no_newline [of "PDict d"] dumps_json [of "PDict d"] show ?thesis
    by (intro exI [of _ "dumps (PDict d)"] exI [of _ d]) simp
qed

theorem single_line_of_json_witness:
  "main (example_lib [example_record]) example_argv =
     \<lparr>stdout = example_output @ [newline], uncaught = None, exit_status = 0\<rparr> \<and>
   newline \<notin> set example_output \<and>
   (\<exists>d. json_value example_output (PDict d) \<and>
      map fst d =
        [''urls'', ''parent_folder'', ''file_extension'', ''partition_key'',
         ''file_size_bytes''])"
proof -
  have "[example_record] \<noteq> []" and "list_all well_formed [example_record]"
    by (simp_all add: example_record_wf)
  from single_line_of_json [OF example_main(3) example_main(2) example_main(1) this]
  obtain line d where
    m: "main (example_lib [example_record]) example_argv =
       \<lparr>stdout = line @ [newline], uncaught = None, exit_status = 0\<rparr>"
    and n: "newline \<notin> set line" and j: "json_value line (PDict d)"
    and k: "map fst d =
      [''urls'', ''parent_folder'', ''file_extension'', ''partition_key'', ''file_size_bytes'']"
    and s: "summary [example_record] = Inr (PDict d)" and l: "line = dumps (PDict d)"
    by (elim exE conjE)
  from s have "d =
       [(''urls'', PList [PStr ''https://example.org/sales-data_1.csv'']),
        (''parent_folder'', PStr ''sales''),
        (''file_extension'', PStr ''.csv''),
        (''partition_key'', PNone),
        (''file_size_bytes'', PInt 5000000000)]"
    by (simp add: example_summary_single)
  with l have "line = example_output"
    by (simp only: example_dumps)
  with m n j k show ?thesis
    by (intro conjI exI [of _ d]) simp_all
qed

end
